theory Spec2Isabelle
  imports Main
begin

section \<open>Data model\<close>

text \<open>
  The library keeps its state in module-level variables: the initialisation flag of
  \<^verbatim>\<open>storage/index.ts\<close>, the two maps of \<^verbatim>\<open>drizzle/database-manager.ts\<close>
  (\<^verbatim>\<open>registeredDatabases\<close>, \<^verbatim>\<open>transactionDatabases\<close>), and the
  \<^verbatim>\<open>AsyncLocalStorage\<close> instance of the context module. The model threads one record
  through every call. Objects that the code shares by reference (the \<^verbatim>\<open>Map\<close> stores of
  the context carrier, the \<^verbatim>\<open>EventEmitter\<close> hook objects) live in explicit heaps indexed by
  addresses, so that copying a store copies references and not objects.
\<close>

type_synonym DatabaseName = string

text \<open>Error values: the \<^verbatim>\<open>code\<close> of a \<^verbatim>\<open>DrizzleTransactionalError\<close>, or an error coming
  from outside the library (the driver, the wrapped operation, a listener, the runtime).\<close>

datatype error =
    NOT_INITIALIZED
  | DATABASE_NOT_FOUND DatabaseName
  | DATABASE_ALREADY_REGISTERED DatabaseName
  | PROPAGATION_MANDATORY
  | PROPAGATION_NEVER
  | PROPAGATION_UNKNOWN string
  | CONTEXT_NO_CONTEXT
  | CONTEXT_NO_HOOK
  | NO_TRANSACTION_DATABASE
  | TypeError
  | DriverError nat
  | UserError nat

text \<open>Modelled from the spec: the enum \<^verbatim>\<open>Propagation\<close> (\<^verbatim>\<open>enums/propagation.ts\<close>) is
  not among the sources; its seven members are the policies of the resolution table.
  \<open>Unrecognized\<close> stands for a run-time value outside the enum, one for which the handler
  table has no entry.\<close>

datatype Propagation =
    MANDATORY | NESTED | NEVER | NOT_SUPPORTED | REQUIRED | REQUIRES_NEW | SUPPORTS
  | Unrecognized string

text \<open>Values bound in a context store. A transaction id is the string that
  \<^verbatim>\<open>randomUUID()\<close> returned, a hook is a reference to an emitter object.\<close>

datatype val = VBool bool | VId nat | VHook nat

text \<open>JavaScript truthiness of a stored value (\<^verbatim>\<open>!x\<close>, \<^verbatim>\<open>if (x)\<close>): a UUID string is
  never empty and an object is always truthy.\<close>

fun truthy :: "val \<Rightarrow> bool" where
  "truthy (VBool b) = b"
| "truthy (VId _) = True"
| "truthy (VHook _) = True"

text \<open>A transaction handle that the driver passes to the transaction runner: the base
  database it was begun on and the driver's serial number of the transaction.\<close>

datatype DrizzleTransaction = Transaction (tx_base: nat) (tx_no: nat)

datatype handle = BaseHandle nat | TxHandle DrizzleTransaction

record TransactionalDatabaseInfo =
  database :: handle
  isTransacting :: bool
  baseDatabase :: nat

text \<open>A hook listener is a callback of the user. The model records each invocation in a
  trace (event, tag of the listener, the argument it received) and lets the listener
  throw.\<close>

datatype event = Commit | Rollback | End

datatype listener = Listener (tag: nat) (throws: "error option")

datatype driver_call =
    Begin nat "string option" | CommitTx nat | RollbackTx nat | Exec handle nat

record state =
  initialized :: bool
  registeredDatabases :: "DatabaseName \<rightharpoonup> nat"
  transactionDatabases :: "nat \<rightharpoonup> DrizzleTransaction"
  next_uuid :: nat
  stores :: "nat \<Rightarrow> (string \<rightharpoonup> val)"
  next_store :: nat
  asyncLocalStorage :: "nat option"
  emitters :: "nat \<Rightarrow> event \<Rightarrow> listener list"
  next_emitter :: nat
  trace :: "(event \<times> nat \<times> error option) list"
  committed :: "nat \<Rightarrow> nat list"
  pending :: "nat \<Rightarrow> nat list"
  next_tx :: nat
  begin_fails :: "nat set"
  commit_fails :: "nat set"
  driver_log :: "driver_call list"
  warnings :: nat

type_synonym 'a action = "state \<Rightarrow> (error + 'a) \<times> state"

section \<open>Context carrier\<close>

text \<open>\<^verbatim>\<open>AsyncLocalStorage.run(store, fn)\<close>: \<open>fn\<close> runs with \<open>store\<close> as the current store,
  and the store that was current before is current again when \<open>fn\<close> has settled, whether it
  returned or threw. The store object is allocated by the caller (\<^verbatim>\<open>new Map(...)\<close>); the
  model allocates it here, at a fresh address.\<close>

definition als_run :: "(string \<rightharpoonup> val) \<Rightarrow> 'a action \<Rightarrow> 'a action" where
  "als_run newStore fn s =
     (let a = next_store s;
          s1 = s\<lparr>stores := (stores s)(a := newStore), next_store := Suc a,
                 asyncLocalStorage := Some a\<rparr>;
          (r, s2) = fn s1
      in (r, s2\<lparr>asyncLocalStorage := asyncLocalStorage s\<rparr>))"

definition runWithContext :: "(string \<times> val) list \<Rightarrow> 'a action \<Rightarrow> 'a action" where
  "runWithContext context fn s =
     (let currentStore = asyncLocalStorage s in
      if currentStore = None \<and> context = [] then als_run Map.empty fn s
      else
        let newStore = fold (\<lambda>(key, value) m. m(key \<mapsto> value)) context
                         (case currentStore of None \<Rightarrow> Map.empty | Some a \<Rightarrow> stores s a)
        in als_run newStore fn s)"

definition getContextValue :: "string \<Rightarrow> state \<Rightarrow> val option" where
  "getContextValue key s =
     (case asyncLocalStorage s of None \<Rightarrow> None | Some a \<Rightarrow> stores s a key)"

definition setContextValue :: "string \<Rightarrow> val \<Rightarrow> state \<Rightarrow> state" where
  "setContextValue key value s =
     (case asyncLocalStorage s of
        None \<Rightarrow> s
      | Some a \<Rightarrow> s\<lparr>stores := (stores s)(a := (stores s a)(key \<mapsto> value))\<rparr>)"

definition hasActiveContext :: "state \<Rightarrow> bool" where
  "hasActiveContext s = (asyncLocalStorage s \<noteq> None)"

section \<open>Database registry and handle resolver\<close>

definition DATABASE_MAP_KEY :: string where
  "DATABASE_MAP_KEY = ''@drizzle-transactional/databases''"

definition CURRENT_DB_ID_KEY :: string where
  "CURRENT_DB_ID_KEY = ''@drizzle-transactional/current-db-id''"

definition addTransactionalDrizzleDatabase :: "nat \<Rightarrow> DatabaseName \<Rightarrow> unit action" where
  "addTransactionalDrizzleDatabase db name s =
     (if registeredDatabases s name \<noteq> None then (Inl (DATABASE_ALREADY_REGISTERED name), s)
      else (Inr (), s\<lparr>registeredDatabases := (registeredDatabases s)(name \<mapsto> db)\<rparr>))"

definition getDrizzleDatabaseByName :: "DatabaseName \<Rightarrow> state \<Rightarrow> error + nat" where
  "getDrizzleDatabaseByName name s =
     (case registeredDatabases s name of
        None \<Rightarrow> Inl (DATABASE_NOT_FOUND name)
      | Some db \<Rightarrow> Inr db)"

definition removeDrizzleDatabaseByName :: "DatabaseName \<Rightarrow> state \<Rightarrow> bool \<times> state" where
  "removeDrizzleDatabaseByName name s =
     (registeredDatabases s name \<noteq> None,
      s\<lparr>registeredDatabases := (registeredDatabases s)(name := None)\<rparr>)"

text \<open>\<^verbatim>\<open>transactionDatabases.get(currentDbId)\<close>: only a transaction id can be a key of the
  map, any other value finds nothing.\<close>

definition lookupTransaction :: "val \<Rightarrow> state \<Rightarrow> DrizzleTransaction option" where
  "lookupTransaction v s = (case v of VId i \<Rightarrow> transactionDatabases s i | _ \<Rightarrow> None)"

definition getCurrentDatabaseInfo :: "DatabaseName \<Rightarrow> state \<Rightarrow> error + TransactionalDatabaseInfo" where
  "getCurrentDatabaseInfo name s =
     (case getDrizzleDatabaseByName name s of
        Inl e \<Rightarrow> Inl e
      | Inr base \<Rightarrow>
          (case getContextValue CURRENT_DB_ID_KEY s of
             None \<Rightarrow> Inr \<lparr>database = BaseHandle base, isTransacting = False, baseDatabase = base\<rparr>
           | Some currentDbId \<Rightarrow>
               if \<not> truthy currentDbId
               then Inr \<lparr>database = BaseHandle base, isTransacting = False, baseDatabase = base\<rparr>
               else (case lookupTransaction currentDbId s of
                       None \<Rightarrow> Inl NO_TRANSACTION_DATABASE
                     | Some transactionDb \<Rightarrow>
                         Inr \<lparr>database = TxHandle transactionDb, isTransacting = True,
                              baseDatabase = base\<rparr>)))"


section \<open>The database driver\<close>

text \<open>
  Drizzle and the PostgreSQL connection are outside the library; the model follows the
  contract the library relies on. \<^verbatim>\<open>db.transaction(runner, config)\<close> begins a
  transaction, hands a transaction handle to \<open>runner\<close>, commits when \<open>runner\<close> returns and
  rolls back and rethrows when it throws (a failed commit is rolled back and reported as
  well). A statement executed through the base handle is persistent at once; one executed
  through a transaction handle is buffered until the commit. Every call that reaches the
  database is appended to \<open>driver_log\<close>.
\<close>

definition commit_tx :: "DrizzleTransaction \<Rightarrow> state \<Rightarrow> state" where
  "commit_tx tx s =
     s\<lparr>committed := (committed s)(tx_base tx := committed s (tx_base tx) @ pending s (tx_no tx)),
       pending := (pending s)(tx_no tx := []),
       driver_log := driver_log s @ [CommitTx (tx_no tx)]\<rparr>"

definition rollback_tx :: "DrizzleTransaction \<Rightarrow> state \<Rightarrow> state" where
  "rollback_tx tx s =
     s\<lparr>pending := (pending s)(tx_no tx := []),
       driver_log := driver_log s @ [RollbackTx (tx_no tx)]\<rparr>"

definition transaction ::
  "nat \<Rightarrow> string option \<Rightarrow> (DrizzleTransaction \<Rightarrow> 'a action) \<Rightarrow> 'a action" where
  "transaction db config runner s =
     (let s0 = s\<lparr>driver_log := driver_log s @ [Begin db config]\<rparr> in
      if db \<in> begin_fails s then (Inl (DriverError db), s0)
      else
        let tx = Transaction db (next_tx s);
            s1 = s0\<lparr>next_tx := Suc (next_tx s), pending := (pending s)(next_tx s := [])\<rparr>;
            (r, s2) = runner tx s1
        in case r of
             Inl e \<Rightarrow> (Inl e, rollback_tx tx s2)
           | Inr v \<Rightarrow>
               if db \<in> commit_fails s2 then (Inl (DriverError db), rollback_tx tx s2)
               else (Inr v, commit_tx tx s2))"

definition execute :: "handle \<Rightarrow> nat \<Rightarrow> state \<Rightarrow> state" where
  "execute h row s =
     (case h of
        BaseHandle db \<Rightarrow>
          s\<lparr>committed := (committed s)(db := committed s db @ [row]),
            driver_log := driver_log s @ [Exec h row]\<rparr>
      | TxHandle tx \<Rightarrow>
          s\<lparr>pending := (pending s)(tx_no tx := pending s (tx_no tx) @ [row]),
            driver_log := driver_log s @ [Exec h row]\<rparr>)"

text \<open>A statement issued through \<^verbatim>\<open>createTransactionalDatabaseProxy(name)\<close>: the \<^verbatim>\<open>get\<close>
  trap resolves the handle with \<open>getCurrentDatabaseInfo\<close> at every access and forwards to
  it.\<close>

definition proxy_insert :: "DatabaseName \<Rightarrow> nat \<Rightarrow> unit action" where
  "proxy_insert name row s =
     (case getCurrentDatabaseInfo name s of
        Inl e \<Rightarrow> (Inl e, s)
      | Inr dbInfo \<Rightarrow> (Inr (), execute (database dbInfo) row s))"

section \<open>Transaction manager\<close>

text \<open>\<^verbatim>\<open>randomUUID()\<close> is a supply of identifiers that never repeats.\<close>

definition runInDatabaseTransaction ::
  "DatabaseName \<Rightarrow> string option \<Rightarrow> 'a action \<Rightarrow> 'a action" where
  "runInDatabaseTransaction name level callback s =
     (case getDrizzleDatabaseByName name s of
        Inl e \<Rightarrow> (Inl e, s)
      | Inr base \<Rightarrow>
          let transactionId = next_uuid s;
              s1 = s\<lparr>next_uuid := Suc transactionId\<rparr>;
              transactionRunner = (\<lambda>tx s2.
                let s3 = s2\<lparr>transactionDatabases := (transactionDatabases s2)(transactionId \<mapsto> tx)\<rparr>;
                    (r, s4) = runWithContext [(CURRENT_DB_ID_KEY, VId transactionId)] callback s3
                in (r, s4\<lparr>transactionDatabases := (transactionDatabases s4)(transactionId := None)\<rparr>))
          in if level \<noteq> None \<and> level \<noteq> Some []
             then transaction base level transactionRunner s1
             else transaction base None transactionRunner s1)"

section \<open>Hook registry\<close>

text \<open>
  The hook object is a Node.js \<^verbatim>\<open>EventEmitter\<close>. \<^verbatim>\<open>once(event, f)\<close> appends a wrapper of
  \<open>f\<close> to the listeners of \<open>event\<close>; \<^verbatim>\<open>emit(event, arg)\<close> calls the listeners that are
  registered when it starts, in registration order; a \<^verbatim>\<open>once\<close> wrapper removes itself
  before it calls \<open>f\<close>; an exception of a listener leaves \<^verbatim>\<open>emit\<close> at once, with the
  listeners after it neither called nor removed. \<^verbatim>\<open>setMaxListeners\<close> only sets the
  threshold of a warning and is left out.
\<close>

definition HOOK_CONTEXT_KEY :: string where
  "HOOK_CONTEXT_KEY = ''@drizzle-transactional/hook''"

definition getTransactionalContextHook :: "state \<Rightarrow> error + nat" where
  "getTransactionalContextHook s =
     (if \<not> hasActiveContext s then Inl CONTEXT_NO_CONTEXT
      else case getContextValue HOOK_CONTEXT_KEY s of
             None \<Rightarrow> Inl CONTEXT_NO_HOOK
           | Some emitter \<Rightarrow>
               if \<not> truthy emitter then Inl CONTEXT_NO_HOOK
               else (case emitter of VHook h \<Rightarrow> Inr h | _ \<Rightarrow> Inl TypeError))"

definition createEventEmitterInContext :: "state \<Rightarrow> nat \<times> state" where
  "createEventEmitterInContext s =
     (let emitter = next_emitter s;
          s1 = s\<lparr>emitters := (emitters s)(emitter := (\<lambda>_. [])), next_emitter := Suc emitter\<rparr>
      in (emitter, setContextValue HOOK_CONTEXT_KEY (VHook emitter) s1))"

definition once :: "event \<Rightarrow> listener \<Rightarrow> nat \<Rightarrow> state \<Rightarrow> state" where
  "once ev l h s = s\<lparr>emitters := (emitters s)(h := (emitters s h)(ev := emitters s h ev @ [l]))\<rparr>"

fun emit_loop :: "event \<Rightarrow> error option \<Rightarrow> nat \<Rightarrow> listener list \<Rightarrow> unit action" where
  "emit_loop ev arg h [] s = (Inr (), s)"
| "emit_loop ev arg h (l # ls) s =
     (let s1 = s\<lparr>emitters := (emitters s)(h := (emitters s h)(ev := remove1 l (emitters s h ev))),
                 trace := trace s @ [(ev, tag l, arg)]\<rparr>
      in case throws l of
           Some e \<Rightarrow> (Inl e, s1)
         | None \<Rightarrow> emit_loop ev arg h ls s1)"

definition emit :: "event \<Rightarrow> error option \<Rightarrow> nat \<Rightarrow> unit action" where
  "emit ev arg h s = emit_loop ev arg h (emitters s h ev) s"

definition removeAllListeners :: "nat \<Rightarrow> state \<Rightarrow> state" where
  "removeAllListeners h s = s\<lparr>emitters := (emitters s)(h := (\<lambda>_. []))\<rparr>"

text \<open>The \<^verbatim>\<open>catch\<close> block of \<open>runAndTriggerHooks\<close>.\<close>

definition triggerRollback :: "nat \<Rightarrow> error \<Rightarrow> 'a action" where
  "triggerRollback hook err s =
     (case emit Rollback (Some err) hook s of
        (Inl e, s1) \<Rightarrow> (Inl e, s1)
      | (Inr _, s1) \<Rightarrow>
          (case emit End (Some err) hook s1 of
             (Inl e, s2) \<Rightarrow> (Inl e, s2)
           | (Inr _, s2) \<Rightarrow> (Inl err, removeAllListeners hook s2)))"

text \<open>The \<^verbatim>\<open>try\<close> block covers the callback and the two \<^verbatim>\<open>emit\<close> calls after it, so an
  exception of a commit or end listener reaches the \<^verbatim>\<open>catch\<close> block as well.\<close>

definition runAndTriggerHooks :: "nat \<Rightarrow> 'a action \<Rightarrow> 'a action" where
  "runAndTriggerHooks hook callback s =
     (case callback s of
        (Inl err, s1) \<Rightarrow> triggerRollback hook err s1
      | (Inr result, s1) \<Rightarrow>
          (case emit Commit None hook s1 of
             (Inl err, s2) \<Rightarrow> triggerRollback hook err s2
           | (Inr _, s2) \<Rightarrow>
               (case emit End None hook s2 of
                  (Inl err, s3) \<Rightarrow> triggerRollback hook err s3
                | (Inr _, s3) \<Rightarrow> (Inr result, removeAllListeners hook s3))))"

definition runOnTransactionCommit :: "listener \<Rightarrow> unit action" where
  "runOnTransactionCommit callback s =
     (case getTransactionalContextHook s of
        Inl e \<Rightarrow> (Inl e, s)
      | Inr h \<Rightarrow> (Inr (), once Commit callback h s))"

definition runOnTransactionRollback :: "listener \<Rightarrow> unit action" where
  "runOnTransactionRollback callback s =
     (case getTransactionalContextHook s of
        Inl e \<Rightarrow> (Inl e, s)
      | Inr h \<Rightarrow> (Inr (), once Rollback callback h s))"

definition runOnTransactionComplete :: "listener \<Rightarrow> unit action" where
  "runOnTransactionComplete callback s =
     (case getTransactionalContextHook s of
        Inl e \<Rightarrow> (Inl e, s)
      | Inr h \<Rightarrow> (Inr (), once End callback h s))"


section \<open>Propagation engine\<close>

record WrapInTransactionOptions =
  databaseName :: "DatabaseName option"
  propagation :: "Propagation option"
  isolationLevel :: "string option"

definition CURRENT_TRANSACTION_KEY :: string where
  "CURRENT_TRANSACTION_KEY = ''@drizzle-transactional/current-transaction''"

text \<open>\<^verbatim>\<open>console.warn\<close> only counts the warning.\<close>

definition console_warn :: "state \<Rightarrow> state" where
  "console_warn s = s\<lparr>warnings := Suc (warnings s)\<rparr>"

type_synonym 'a handler = "bool \<Rightarrow> 'a action \<Rightarrow> 'a action \<Rightarrow> 'a action \<Rightarrow> 'a action"

text \<open>The table \<open>propagationHandlers\<close>; the arguments of a handler are
  \<open>currentTransaction\<close>, \<open>runOriginal\<close>, \<open>runWithNewTransaction\<close> and \<open>runWithNewHook\<close>.\<close>

fun propagationHandlers :: "Propagation \<Rightarrow> 'a handler option" where
  "propagationHandlers MANDATORY = Some (\<lambda>currentTransaction runOriginal _ _ s.
     if \<not> currentTransaction then (Inl PROPAGATION_MANDATORY, s)
     else runOriginal s)"
| "propagationHandlers NESTED = Some (\<lambda>_ _ runWithNewTransaction _ s.
     runWithNewTransaction s)"
| "propagationHandlers NEVER = Some (\<lambda>currentTransaction _ _ runWithNewHook s.
     if currentTransaction then (Inl PROPAGATION_NEVER, s)
     else runWithNewHook s)"
| "propagationHandlers NOT_SUPPORTED = Some (\<lambda>currentTransaction runOriginal _ runWithNewHook s.
     if currentTransaction
     then runWithContext [(CURRENT_TRANSACTION_KEY, VBool False)] runWithNewHook s
     else runOriginal s)"
| "propagationHandlers REQUIRED = Some (\<lambda>currentTransaction runOriginal runWithNewTransaction _ s.
     if currentTransaction then runOriginal s else runWithNewTransaction s)"
| "propagationHandlers REQUIRES_NEW = Some (\<lambda>currentTransaction _ runWithNewTransaction runWithNewHook s.
     if currentTransaction
     then runWithContext [(CURRENT_TRANSACTION_KEY, VBool False)] runWithNewHook (console_warn s)
     else runWithNewTransaction s)"
| "propagationHandlers SUPPORTS = Some (\<lambda>currentTransaction runOriginal _ runWithNewHook s.
     if currentTransaction then runOriginal s else runWithNewHook s)"
| "propagationHandlers (Unrecognized _) = None"

definition runWithNewHook :: "'a action \<Rightarrow> 'a action" where
  "runWithNewHook runOriginal s =
     (let (hook, s1) = createEventEmitterInContext s
      in runAndTriggerHooks hook runOriginal s1)"

definition runWithNewTransaction ::
  "DatabaseName \<Rightarrow> string option \<Rightarrow> 'a action \<Rightarrow> 'a action" where
  "runWithNewTransaction name level runOriginal s =
     (let (hook, s1) = createEventEmitterInContext s
      in runAndTriggerHooks hook
           (runInDatabaseTransaction name level
              (runWithContext [(CURRENT_TRANSACTION_KEY, VBool True)] runOriginal)) s1)"

definition propagation_name :: "Propagation \<Rightarrow> string" where
  "propagation_name p = (case p of Unrecognized x \<Rightarrow> x | _ \<Rightarrow> [])"

definition executeWithPropagation ::
  "Propagation \<Rightarrow> 'a action \<Rightarrow> 'a action \<Rightarrow> 'a action \<Rightarrow> 'a action" where
  "executeWithPropagation p runOriginal runNewTransaction runNewHook s =
     (let currentTransaction = getContextValue CURRENT_TRANSACTION_KEY s in
      case propagationHandlers p of
        None \<Rightarrow> (Inl (PROPAGATION_UNKNOWN (propagation_name p)), s)
      | Some handler \<Rightarrow>
          handler (case currentTransaction of None \<Rightarrow> False | Some v \<Rightarrow> truthy v)
            runOriginal runNewTransaction runNewHook s)"

definition wrapInTransaction :: "'a action \<Rightarrow> WrapInTransactionOptions \<Rightarrow> 'a action" where
  "wrapInTransaction fn options s =
     (if \<not> initialized s then (Inl NOT_INITIALIZED, s)
      else
        let name = (case databaseName options of None \<Rightarrow> ''default'' | Some n \<Rightarrow> n);
            p = (case propagation options of None \<Rightarrow> REQUIRED | Some q \<Rightarrow> q);
            level = isolationLevel options;
            go = executeWithPropagation p fn (runWithNewTransaction name level fn)
                   (runWithNewHook fn)
        in if \<not> hasActiveContext s then runWithContext [] go s else go s)"

definition runInTransaction :: "'a action \<Rightarrow> WrapInTransactionOptions \<Rightarrow> 'a action" where
  "runInTransaction fn options = wrapInTransaction fn options"

section \<open>Wrapped operations\<close>

text \<open>
  The body of a wrapped operation is code of the user. It is described by a list of the
  calls into the library that it makes, in order: a statement through the database proxy,
  the registration of a listener, a write into the current context store, a nested wrapped
  operation (awaited, or awaited inside \<^verbatim>\<open>try\<close>/\<^verbatim>\<open>catch\<close> that swallows its error), a
  nested context scope, and \<^verbatim>\<open>throw\<close>.
\<close>

datatype cmd =
    Insert DatabaseName nat
  | OnCommit listener
  | OnRollback listener
  | OnComplete listener
  | SetContextValue string val
  | Throw error
  | Call WrapInTransactionOptions "cmd list"
  | TryCall WrapInTransactionOptions "cmd list"
  | RunWithContext "(string \<times> val) list" "cmd list"

definition swallow :: "unit action \<Rightarrow> unit action" where
  "swallow f s = (case f s of (_, s1) \<Rightarrow> (Inr (), s1))"

definition andThen :: "unit action \<Rightarrow> unit action \<Rightarrow> unit action" where
  "andThen f g s = (case f s of (Inl e, s1) \<Rightarrow> (Inl e, s1) | (Inr _, s1) \<Rightarrow> g s1)"

fun exec :: "cmd \<Rightarrow> unit action" and execs :: "cmd list \<Rightarrow> unit action" where
  "exec (Insert name row) = proxy_insert name row"
| "exec (OnCommit l) = runOnTransactionCommit l"
| "exec (OnRollback l) = runOnTransactionRollback l"
| "exec (OnComplete l) = runOnTransactionComplete l"
| "exec (SetContextValue key value) = (\<lambda>s. (Inr (), setContextValue key value s))"
| "exec (Throw e) = (\<lambda>s. (Inl e, s))"
| "exec (Call options body) = wrapInTransaction (execs body) options"
| "exec (TryCall options body) = swallow (wrapInTransaction (execs body) options)"
| "exec (RunWithContext context body) = runWithContext context (execs body)"
| "execs [] = (\<lambda>s. (Inr (), s))"
| "execs (c # cs) = andThen (exec c) (execs cs)"

text \<open>The state of a process that has called
  \<^verbatim>\<open>initializeDrizzleTransactionalContext()\<close> and registered database \<open>0\<close> under the
  name \<^verbatim>\<open>default\<close>, with nothing else done yet.\<close>

definition started :: state where
  "started = \<lparr>initialized = True,
     registeredDatabases = [''default'' \<mapsto> 0],
     transactionDatabases = Map.empty,
     next_uuid = 0,
     stores = (\<lambda>_. Map.empty),
     next_store = 0,
     asyncLocalStorage = None,
     emitters = (\<lambda>_ _. []),
     next_emitter = 0,
     trace = [],
     committed = (\<lambda>_. []),
     pending = (\<lambda>_. []),
     next_tx = 0,
     begin_fails = {},
     commit_fails = {},
     driver_log = [],
     warnings = 0\<rparr>"

definition with_policy :: "Propagation \<Rightarrow> WrapInTransactionOptions" where
  "with_policy p = \<lparr>databaseName = None, propagation = Some p, isolationLevel = None\<rparr>"


section \<open>Notions used in the statements\<close>

text \<open>The ambient flag as \<open>executeWithPropagation\<close> reads it: absent means false.\<close>

definition inTransaction :: "state \<Rightarrow> bool" where
  "inTransaction s =
     (case getContextValue CURRENT_TRANSACTION_KEY s of None \<Rightarrow> False | Some v \<Rightarrow> truthy v)"

fun is_begin :: "driver_call \<Rightarrow> bool" where
  "is_begin (Begin _ _) = True"
| "is_begin _ = False"

definition begins :: "state \<Rightarrow> driver_call list" where
  "begins s = filter is_begin (driver_log s)"



text \<open>A state inside a scope whose transaction flag is set, with no transaction
  registered: the ambient state that \<open>NEVER\<close> rejects.\<close>

definition in_tx_state :: state where
  "in_tx_state =
     started\<lparr>stores := (\<lambda>_. Map.empty)(0 := [CURRENT_TRANSACTION_KEY \<mapsto> VBool True]),
       next_store := 1, asyncLocalStorage := Some 0\<rparr>"


text \<open>The current store of a state, if there is one, has been allocated.\<close>

definition wf_scope :: "state \<Rightarrow> bool" where
  "wf_scope s = (\<forall>a. asyncLocalStorage s = Some a \<longrightarrow> a < next_store s)"

text \<open>\<open>within s t\<close>: from \<open>s\<close> to \<open>t\<close> the current store is the same object, and no store
  that existed in \<open>s\<close> other than the current one has changed. An action is \<open>scoped\<close>
  when it takes every well-formed state to a state within it; \<open>same_scope\<close> relates states
  that agree on the whole context carrier.\<close>

definition within :: "state \<Rightarrow> state \<Rightarrow> bool" where
  "within s t =
     (asyncLocalStorage t = asyncLocalStorage s \<and> next_store s \<le> next_store t \<and>
      (\<forall>a<next_store s. asyncLocalStorage s \<noteq> Some a \<longrightarrow> stores t a = stores s a))"

definition scoped :: "'a action \<Rightarrow> bool" where
  "scoped f = (\<forall>s. wf_scope s \<longrightarrow> within s (snd (f s)))"

definition same_scope :: "state \<Rightarrow> state \<Rightarrow> bool" where
  "same_scope s t =
     (stores t = stores s \<and> next_store t = next_store s \<and>
      asyncLocalStorage t = asyncLocalStorage s)"



text \<open>\<open>hooks_only s t\<close>: \<open>t\<close> differs from \<open>s\<close> in the hook objects and the listener trace at
  most.\<close>

definition hooks_only :: "state \<Rightarrow> state \<Rightarrow> bool" where
  "hooks_only s t = (t = s\<lparr>emitters := emitters t, trace := trace t\<rparr>)"

subsection \<open>Scenarios\<close>

text \<open>A state inside the operation of an open transaction: transaction \<open>0\<close> has been
  begun on database \<open>0\<close> and is registered, and the scope binds the hook object, the
  transaction id and the transaction flag.\<close>

definition open_tx_state :: state where
  "open_tx_state =
     started\<lparr>stores := (\<lambda>_. Map.empty)(0 :=
                 [HOOK_CONTEXT_KEY \<mapsto> VHook 0, CURRENT_DB_ID_KEY \<mapsto> VId 0,
                  CURRENT_TRANSACTION_KEY \<mapsto> VBool True]),
       next_store := 1, asyncLocalStorage := Some 0,
       transactionDatabases := [0 \<mapsto> Transaction 0 0], next_uuid := 1, next_tx := 1,
       next_emitter := 1, driver_log := [Begin 0 None]\<rparr>"

text \<open>The scope that the \<open>NOT_SUPPORTED\<close> handler enters from \<open>open_tx_state\<close>: a copy of
  the store with the transaction flag overridden by false.\<close>

definition suspended_state :: state where
  "suspended_state =
     open_tx_state\<lparr>stores := (stores open_tx_state)(1 :=
                 [HOOK_CONTEXT_KEY \<mapsto> VHook 0, CURRENT_DB_ID_KEY \<mapsto> VId 0,
                  CURRENT_TRANSACTION_KEY \<mapsto> VBool False]),
       next_store := 2, asyncLocalStorage := Some 1\<rparr>"

text \<open>An outer operation writes row \<open>1\<close>, then calls an inner \<open>REQUIRES_NEW\<close> operation
  that writes row \<open>2\<close> and fails; the outer operation catches the failure and returns.\<close>

definition requires_new_scenario :: "cmd list" where
  "requires_new_scenario =
     [Insert ''default'' 1,
      TryCall (with_policy REQUIRES_NEW) [Insert ''default'' 2, Throw (UserError 7)]]"

text \<open>An outer operation writes row \<open>1\<close> and calls an inner operation of policy \<open>p\<close> that
  writes row \<open>2\<close>.\<close>

definition nested_scenario :: "Propagation \<Rightarrow> cmd list" where
  "nested_scenario p =
     [Insert ''default'' 1, Call (with_policy p) [Insert ''default'' 2]]"

text \<open>An outer operation writes row \<open>1\<close>, calls an inner \<open>NOT_SUPPORTED\<close> operation that
  writes row \<open>2\<close>, and then fails.\<close>

definition suspended_scenario :: "cmd list" where
  "suspended_scenario =
     [Insert ''default'' 1,
      Call (with_policy NOT_SUPPORTED) [Insert ''default'' 2],
      Throw (UserError 5)]"

text \<open>An operation that succeeds and whose first commit listener throws; an operation
  that fails and whose first rollback listener throws.\<close>

definition throwing_commit_listener :: "cmd list" where
  "throwing_commit_listener =
     [Insert ''default'' 1,
      OnCommit (Listener 1 (Some (UserError 9))), OnCommit (Listener 2 None),
      OnRollback (Listener 3 None), OnComplete (Listener 4 None)]"

definition throwing_rollback_listener :: "cmd list" where
  "throwing_rollback_listener =
     [OnRollback (Listener 1 (Some (UserError 9))), OnRollback (Listener 2 None),
      OnComplete (Listener 3 None), Throw (UserError 5)]"

text \<open>Operations whose nested wrapped operations all have the policy \<open>REQUIRED\<close> (given or
  by default), to any depth, and that neither write into the context store nor catch an
  error: the bodies of the claim about joining.\<close>

fun joins :: "cmd \<Rightarrow> bool" and joins_all :: "cmd list \<Rightarrow> bool" where
  "joins (Insert _ _) = True"
| "joins (OnCommit _) = True"
| "joins (OnRollback _) = True"
| "joins (OnComplete _) = True"
| "joins (SetContextValue _ _) = False"
| "joins (Throw _) = True"
| "joins (Call options body) =
     ((propagation options = None \<or> propagation options = Some REQUIRED) \<and> joins_all body)"
| "joins (TryCall _ _) = False"
| "joins (RunWithContext _ _) = False"
| "joins_all [] = True"
| "joins_all (c # cs) = (joins c \<and> joins_all cs)"

text \<open>The listeners that an operation registers for an event when it runs to its end, in
  the order of the registrations, those of nested operations included.\<close>

fun registered :: "event \<Rightarrow> cmd \<Rightarrow> listener list"
  and registered_all :: "event \<Rightarrow> cmd list \<Rightarrow> listener list" where
  "registered ev (OnCommit l) = (if ev = Commit then [l] else [])"
| "registered ev (OnRollback l) = (if ev = Rollback then [l] else [])"
| "registered ev (OnComplete l) = (if ev = End then [l] else [])"
| "registered ev (Call _ body) = registered_all ev body"
| "registered ev (TryCall _ body) = registered_all ev body"
| "registered ev (RunWithContext _ body) = registered_all ev body"
| "registered ev (Insert _ _) = []"
| "registered ev (SetContextValue _ _) = []"
| "registered ev (Throw _) = []"
| "registered_all ev [] = []"
| "registered_all ev (c # cs) = registered ev c @ registered_all ev cs"

text \<open>\<open>joined_ctx h s\<close>: \<open>s\<close> is inside a transaction and \<open>h\<close> is the hook object of its
  scope. \<open>joined_step h reg s t\<close>: from \<open>s\<close> to \<open>t\<close> the listeners \<open>reg\<close> have been appended
  to \<open>h\<close>, and nothing else that the claim observes has changed.\<close>

definition joined_ctx :: "nat \<Rightarrow> state \<Rightarrow> bool" where
  "joined_ctx h s =
     (initialized s \<and> inTransaction s \<and> getContextValue HOOK_CONTEXT_KEY s = Some (VHook h))"

definition joined_step :: "nat \<Rightarrow> (event \<Rightarrow> listener list) \<Rightarrow> state \<Rightarrow> state \<Rightarrow> bool" where
  "joined_step h reg s t =
     (initialized t = initialized s \<and> same_scope s t \<and> trace t = trace s \<and>
      next_emitter t = next_emitter s \<and> begins t = begins s \<and>
      (\<forall>ev. emitters t h ev = emitters s h ev @ reg ev))"

text \<open>A \<open>REQUIRED\<close> operation nested in a \<open>REQUIRED\<close> operation nested in the operation
  under test, with four listeners registered on the way.\<close>

definition required_in_required :: "cmd list" where
  "required_in_required =
     [OnCommit (Listener 1 None), Insert ''default'' 1,
      Call (with_policy REQUIRED)
        [OnCommit (Listener 2 None), Insert ''default'' 2,
         Call (with_policy REQUIRED) [OnComplete (Listener 3 None)]],
      OnCommit (Listener 4 None)]"

section \<open>Properties\<close>


lemmas context_defs =
  runWithContext_def als_run_def getContextValue_def setContextValue_def hasActiveContext_def

lemmas key_defs = CURRENT_TRANSACTION_KEY_def CURRENT_DB_ID_KEY_def HOOK_CONTEXT_KEY_def

lemmas registry_defs =
  addTransactionalDrizzleDatabase_def getDrizzleDatabaseByName_def
  removeDrizzleDatabaseByName_def lookupTransaction_def getCurrentDatabaseInfo_def

lemmas driver_defs =
  commit_tx_def rollback_tx_def transaction_def execute_def proxy_insert_def
  runInDatabaseTransaction_def

lemmas hook_defs =
  getTransactionalContextHook_def createEventEmitterInContext_def once_def emit_def
  removeAllListeners_def triggerRollback_def runAndTriggerHooks_def
  runOnTransactionCommit_def runOnTransactionRollback_def runOnTransactionComplete_def

lemmas engine_defs =
  console_warn_def runWithNewHook_def runWithNewTransaction_def propagation_name_def
  executeWithPropagation_def wrapInTransaction_def swallow_def andThen_def with_policy_def

lemmas run_defs =
  context_defs key_defs registry_defs driver_defs hook_defs engine_defs Let_def

lemmas scenario_defs =
  started_def in_tx_state_def open_tx_state_def suspended_state_def
  requires_new_scenario_def nested_scenario_def suspended_scenario_def
  throwing_commit_listener_def throwing_rollback_listener_def
  required_in_required_def begins_def inTransaction_def

subsection \<open>Registration is reversible\<close>

text \<open>
  C10. \<open>removeDrizzleDatabaseByName name\<close> returns true exactly when \<open>name\<close> was
  registered, and whatever the registry held before, registering a database under \<open>name\<close>
  right after the removal succeeds (no \<open>DATABASE_ALREADY_REGISTERED\<close>) and the name then
  resolves to the newly registered database.
\<close>

theorem register_remove_register:
  "fst (removeDrizzleDatabaseByName name s) = (registeredDatabases s name \<noteq> None) \<and>
   addTransactionalDrizzleDatabase db name (snd (removeDrizzleDatabaseByName name s)) =
     (Inr (), s\<lparr>registeredDatabases := (registeredDatabases s)(name \<mapsto> db)\<rparr>) \<and>
   getDrizzleDatabaseByName name
     (snd (addTransactionalDrizzleDatabase db name
        (snd (removeDrizzleDatabaseByName name s)))) = Inr db"
  by (simp add: removeDrizzleDatabaseByName_def addTransactionalDrizzleDatabase_def
      getDrizzleDatabaseByName_def)

text \<open>The round trip on the started process: \<^verbatim>\<open>default\<close> is registered, a second
  registration is refused, and after the removal the registration of database \<open>5\<close>
  goes through.\<close>

theorem register_remove_register_witness:
  "fst (addTransactionalDrizzleDatabase 5 ''default'' started) =
     Inl (DATABASE_ALREADY_REGISTERED ''default'') \<and>
   fst (removeDrizzleDatabaseByName ''default'' started) \<and>
   fst (addTransactionalDrizzleDatabase 5 ''default''
     (snd (removeDrizzleDatabaseByName ''default'' started))) = Inr () \<and>
   getDrizzleDatabaseByName ''default''
     (snd (addTransactionalDrizzleDatabase 5 ''default''
        (snd (removeDrizzleDatabaseByName ''default'' started)))) = Inr 5"
  using register_remove_register [of "''default''" started 5]
  by (simp add: started_def registry_defs)

subsection \<open>The live registry is cleaned on every exit path\<close>

lemma runWithContext_registry:
  "transactionDatabases (snd (runWithContext context fn s)) =
   transactionDatabases (snd (fn (s\<lparr>stores := (stores s)(next_store s :=
       fold (\<lambda>(key, value) m. m(key \<mapsto> value)) context
         (case asyncLocalStorage s of None \<Rightarrow> Map.empty | Some a \<Rightarrow> stores s a)),
     next_store := Suc (next_store s), asyncLocalStorage := Some (next_store s)\<rparr>)))"
  by (simp add: runWithContext_def als_run_def Let_def split: prod.splits)

lemma transaction_registry:
  "transactionDatabases (snd (transaction db config runner s)) =
   (if db \<in> begin_fails s then transactionDatabases s
    else transactionDatabases (snd (runner (Transaction db (next_tx s))
           (s\<lparr>driver_log := driver_log s @ [Begin db config], next_tx := Suc (next_tx s),
              pending := (pending s)(next_tx s := [])\<rparr>))))"
  by (simp add: transaction_def commit_tx_def rollback_tx_def Let_def
      split: prod.splits sum.splits)

lemma map_upd_then_delete: "m k = None \<Longrightarrow> (m(k := None)) = m"
  by (rule ext) simp

text \<open>
  C8. A transaction attempt of \<open>runInDatabaseTransaction\<close> draws the identifier
  \<open>next_uuid s\<close>. Whatever the callback does and however the attempt ends (the callback
  returns or throws, the database is unknown, the begin or the commit fails), the live
  registry has no entry under that identifier when the call is over; and when the
  callback itself leaves the registry as it found it, the registry after the call is
  the registry before the call. The identifier is fresh, as \<^verbatim>\<open>randomUUID\<close> guarantees.
\<close>

theorem registry_cleanup:
  assumes "transactionDatabases s (next_uuid s) = None"
  shows "transactionDatabases (snd (runInDatabaseTransaction name level callback s))
           (next_uuid s) = None \<and>
         ((\<forall>t. transactionDatabases (snd (callback t)) = transactionDatabases t) \<longrightarrow>
          transactionDatabases (snd (runInDatabaseTransaction name level callback s)) =
            transactionDatabases s)"
proof
  show "transactionDatabases (snd (runInDatabaseTransaction name level callback s))
          (next_uuid s) = None"
    using assms
    by (simp add: runInDatabaseTransaction_def getDrizzleDatabaseByName_def
          transaction_registry Let_def
        split: option.splits prod.splits)
next
  show "(\<forall>t. transactionDatabases (snd (callback t)) = transactionDatabases t) \<longrightarrow>
        transactionDatabases (snd (runInDatabaseTransaction name level callback s)) =
          transactionDatabases s"
  proof
    assume keeps: "\<forall>t. transactionDatabases (snd (callback t)) = transactionDatabases t"
    have inner: "transactionDatabases (snd (runWithContext ctx callback t)) =
        transactionDatabases t" for ctx t
      by (simp add: runWithContext_registry keeps)
    show "transactionDatabases (snd (runInDatabaseTransaction name level callback s)) =
        transactionDatabases s"
    proof (cases "registeredDatabases s name")
      case None
      then show ?thesis
        by (simp add: runInDatabaseTransaction_def getDrizzleDatabaseByName_def)
    next
      case (Some base)
      have finally_delete: "snd (case p of (r, s4) \<Rightarrow> (r, f s4)) = f (snd p)"
        for p :: "(error + 'a) \<times> state" and f
        by (cases p) simp
      show ?thesis
        using Some assms
        by (simp add: runInDatabaseTransaction_def getDrizzleDatabaseByName_def
              transaction_registry finally_delete inner map_upd_then_delete Let_def)
    qed
  qed
qed

text \<open>On the started process: a callback that writes through the proxy succeeds, so the
  entry is there while it runs; a callback that throws fails; the entry is gone after
  both.\<close>

theorem registry_cleanup_witness:
  "transactionDatabases started (next_uuid started) = None \<and>
   fst (runInDatabaseTransaction ''default'' None (execs [Insert ''default'' 1]) started) = Inr () \<and>
   driver_log (snd (runInDatabaseTransaction ''default'' None (execs [Insert ''default'' 1]) started)) =
     [Begin 0 None, Exec (TxHandle (Transaction 0 0)) 1, CommitTx 0] \<and>
   transactionDatabases
     (snd (runInDatabaseTransaction ''default'' None (execs [Insert ''default'' 1]) started))
     (next_uuid started) = None \<and>
   fst (runInDatabaseTransaction ''default'' None (execs [Throw (UserError 1)]) started) =
     Inl (UserError 1) \<and>
   transactionDatabases
     (snd (runInDatabaseTransaction ''default'' None (execs [Throw (UserError 1)]) started))
     (next_uuid started) = None"
  using registry_cleanup [of started "''default''" None "execs [Insert ''default'' 1]"]
        registry_cleanup [of started "''default''" None "execs [Throw (UserError 1)]"]
  by (simp add: started_def run_defs)

subsection \<open>Policy violations are rejected before anything happens\<close>





subsection \<open>Firing of the hooks\<close>





subsection \<open>Nested scopes of the context carrier\<close>

lemma within_refl [simp]: "within s s"
  by (simp add: within_def)

lemma within_trans: "within s t \<Longrightarrow> within t u \<Longrightarrow> within s u"
  by (auto simp add: within_def)

lemma within_wf: "wf_scope s \<Longrightarrow> within s t \<Longrightarrow> wf_scope t"
  by (auto simp add: within_def wf_scope_def split: option.splits)

lemma scopedD: "scoped f \<Longrightarrow> wf_scope s \<Longrightarrow> f s = (r, t) \<Longrightarrow> within s t"
  by (auto simp add: scoped_def dest: spec [of _ s])

lemma scopedI: "(\<And>s r t. wf_scope s \<Longrightarrow> f s = (r, t) \<Longrightarrow> within s t) \<Longrightarrow> scoped f"
  by (auto simp add: scoped_def) (metis prod.collapse)

lemma same_scope_refl [simp]: "same_scope s s"
  by (simp add: same_scope_def)

lemma same_scope_trans: "same_scope s t \<Longrightarrow> same_scope t u \<Longrightarrow> same_scope s u"
  by (simp add: same_scope_def)

lemma same_scope_within_left: "same_scope s t \<Longrightarrow> within t u \<Longrightarrow> within s u"
  by (simp add: same_scope_def within_def)

lemma same_scope_within_right: "within s t \<Longrightarrow> same_scope t u \<Longrightarrow> within s u"
  by (simp add: same_scope_def within_def)

lemma same_scope_wf: "same_scope s t \<Longrightarrow> wf_scope s \<Longrightarrow> wf_scope t"
  by (auto simp add: same_scope_def wf_scope_def split: option.splits)

lemma emit_loop_scope: "emit_loop ev arg h ls s = (r, t) \<Longrightarrow> same_scope s t"
proof (induction ls arbitrary: s)
  case Nil
  then show ?case by simp
next
  case (Cons l ls)
  show ?case
  proof (cases "throws l")
    case None
    with Cons.prems have "emit_loop ev arg h ls
        (s\<lparr>emitters := (emitters s)(h := (emitters s h)(ev := remove1 l (emitters s h ev))),
           trace := trace s @ [(ev, tag l, arg)]\<rparr>) = (r, t)"
      by (simp add: Let_def)
    from Cons.IH [OF this] show ?thesis by (simp add: same_scope_def)
  next
    case (Some e)
    with Cons.prems show ?thesis by (auto simp add: Let_def same_scope_def)
  qed
qed

lemma emit_scope: "emit ev arg h s = (r, t) \<Longrightarrow> same_scope s t"
  by (simp add: emit_def emit_loop_scope)

lemma triggerRollback_scope: "triggerRollback h err s = (r, t) \<Longrightarrow> same_scope s t"
  by (auto simp add: triggerRollback_def removeAllListeners_def
      split: prod.splits sum.splits dest!: emit_scope)
     (auto simp add: same_scope_def)

lemma runAndTriggerHooks_scope:
  assumes "runAndTriggerHooks h f s = (r, t)"
  shows "\<exists>r1 s1. f s = (r1, s1) \<and> same_scope s1 t"
proof -
  obtain r1 s1 where f: "f s = (r1, s1)" by (cases "f s")
  have "same_scope s1 t"
    using assms f
    by (auto simp add: runAndTriggerHooks_def removeAllListeners_def
        split: prod.splits sum.splits dest!: emit_scope triggerRollback_scope)
       (auto simp add: same_scope_def)
  with f show ?thesis by blast
qed

lemma scoped_runAndTriggerHooks: "scoped f \<Longrightarrow> scoped (runAndTriggerHooks h f)"
  by (rule scopedI) (blast dest: runAndTriggerHooks_scope scopedD same_scope_within_right)

lemma als_run_sealed:
  assumes "scoped f" and "wf_scope s" and "als_run m f s = (r, t)"
  shows "asyncLocalStorage t = asyncLocalStorage s \<and> next_store s \<le> next_store t \<and>
         (\<forall>a<next_store s. stores t a = stores s a)"
proof -
  let ?s1 = "s\<lparr>stores := (stores s)(next_store s := m), next_store := Suc (next_store s),
                 asyncLocalStorage := Some (next_store s)\<rparr>"
  obtain r2 s2 where f: "f ?s1 = (r2, s2)" by (cases "f ?s1")
  have "wf_scope ?s1" by (simp add: wf_scope_def)
  then have "within ?s1 s2" using assms(1) f by (blast dest: scopedD)
  moreover have "t = s2\<lparr>asyncLocalStorage := asyncLocalStorage s\<rparr>"
    using assms(3) f by (simp add: als_run_def Let_def)
  ultimately show ?thesis by (auto simp add: within_def)
qed

lemma runWithContext_sealed:
  assumes "scoped f" and "wf_scope s" and "runWithContext ctx f s = (r, t)"
  shows "asyncLocalStorage t = asyncLocalStorage s \<and> next_store s \<le> next_store t \<and>
         (\<forall>a<next_store s. stores t a = stores s a)"
  using assms(3) als_run_sealed [OF assms(1,2)]
  by (simp add: runWithContext_def Let_def split: if_splits)

lemma scoped_runWithContext: "scoped f \<Longrightarrow> scoped (runWithContext ctx f)"
  by (rule scopedI) (auto simp add: within_def dest: runWithContext_sealed)


lemma scoped_andThen: "scoped f \<Longrightarrow> scoped g \<Longrightarrow> scoped (andThen f g)"
proof (rule scopedI)
  fix s r t
  assume f: "scoped f" and g: "scoped g" and wf: "wf_scope s" and run: "andThen f g s = (r, t)"
  obtain r1 s1 where f1: "f s = (r1, s1)" by (cases "f s")
  have w1: "within s s1" using f wf f1 by (rule scopedD)
  show "within s t"
  proof (cases r1)
    case (Inl e)
    with run f1 w1 show ?thesis by (simp add: andThen_def)
  next
    case (Inr u)
    with run f1 have "g s1 = (r, t)" by (simp add: andThen_def)
    with g within_wf [OF wf w1] have "within s1 t" by (rule scopedD)
    with w1 show ?thesis by (rule within_trans)
  qed
qed

lemma scoped_swallow: "scoped f \<Longrightarrow> scoped (swallow f)"
  by (rule scopedI) (auto simp add: swallow_def split: prod.splits dest: scopedD)

lemma scoped_same: "(\<And>s r t. f s = (r, t) \<Longrightarrow> same_scope s t) \<Longrightarrow> scoped f"
  by (rule scopedI) (auto simp add: same_scope_def within_def)

lemma scoped_proxy_insert: "scoped (proxy_insert name row)"
  by (rule scoped_same)
     (auto simp add: proxy_insert_def execute_def same_scope_def split: sum.splits handle.splits)

lemma scoped_runOnTransactionCommit: "scoped (runOnTransactionCommit l)"
  by (rule scoped_same)
     (auto simp add: runOnTransactionCommit_def once_def same_scope_def split: sum.splits)

lemma scoped_runOnTransactionRollback: "scoped (runOnTransactionRollback l)"
  by (rule scoped_same)
     (auto simp add: runOnTransactionRollback_def once_def same_scope_def split: sum.splits)

lemma scoped_runOnTransactionComplete: "scoped (runOnTransactionComplete l)"
  by (rule scoped_same)
     (auto simp add: runOnTransactionComplete_def once_def same_scope_def split: sum.splits)

lemma setContextValue_within: "wf_scope s \<Longrightarrow> within s (setContextValue key v s)"
  by (auto simp add: setContextValue_def within_def split: option.splits)

lemma createEventEmitterInContext_within:
  "wf_scope s \<Longrightarrow> within s (snd (createEventEmitterInContext s))"
  by (auto simp add: createEventEmitterInContext_def setContextValue_def within_def Let_def
      split: option.splits)

lemma scoped_runWithNewHook: "scoped f \<Longrightarrow> scoped (runWithNewHook f)"
proof (rule scopedI)
  fix s r t
  assume f: "scoped f" and wf: "wf_scope s" and run: "runWithNewHook f s = (r, t)"
  obtain h s1 where c: "createEventEmitterInContext s = (h, s1)"
    by (cases "createEventEmitterInContext s")
  have w1: "within s s1" using createEventEmitterInContext_within [OF wf] c by simp
  have "runAndTriggerHooks h f s1 = (r, t)" using run c by (simp add: runWithNewHook_def)
  with scoped_runAndTriggerHooks [OF f] within_wf [OF wf w1] have "within s1 t"
    by (rule scopedD)
  with w1 show "within s t" by (rule within_trans)
qed

lemma scoped_transaction:
  assumes "\<And>tx. scoped (runner tx)"
  shows "scoped (transaction db config runner)"
proof (rule scopedI)
  fix s r t
  assume wf: "wf_scope s" and run: "transaction db config runner s = (r, t)"
  let ?s1 = "s\<lparr>driver_log := driver_log s @ [Begin db config], next_tx := Suc (next_tx s),
               pending := (pending s)(next_tx s := [])\<rparr>"
  show "within s t"
  proof (cases "db \<in> begin_fails s")
    case True
    with run show ?thesis by (auto simp add: transaction_def within_def)
  next
    case False
    obtain r2 s2 where rn: "runner (Transaction db (next_tx s)) ?s1 = (r2, s2)"
      by (cases "runner (Transaction db (next_tx s)) ?s1")
    have "wf_scope ?s1" using wf by (simp add: wf_scope_def)
    with assms have "within ?s1 s2" using rn by (rule scopedD)
    then have "within s s2" by (simp add: within_def)
    moreover have "same_scope s2 t"
      using run rn False
      by (auto simp add: transaction_def Let_def commit_tx_def rollback_tx_def same_scope_def
          split: sum.splits if_splits)
    ultimately show ?thesis by (rule same_scope_within_right)
  qed
qed

lemma scoped_finally:
  assumes "scoped f" and "\<And>s. same_scope s (g s)" and "\<And>s. same_scope s (k s)"
  shows "scoped (\<lambda>s. case f (g s) of (r, s4) \<Rightarrow> (r, k s4))"
proof (rule scopedI)
  fix s r t
  assume wf: "wf_scope s" and run: "(case f (g s) of (r, s4) \<Rightarrow> (r, k s4)) = (r, t)"
  obtain r4 s4 where f: "f (g s) = (r4, s4)" by (cases "f (g s)")
  have "wf_scope (g s)" using assms(2) wf by (rule same_scope_wf)
  with assms(1) have "within (g s) s4" using f by (rule scopedD)
  with assms(2) have "within s s4" by (rule same_scope_within_left)
  moreover have "t = k s4" using run f by simp
  ultimately show "within s t" using assms(3) by (blast intro: same_scope_within_right)
qed

lemma scoped_runInDatabaseTransaction:
  assumes "scoped f"
  shows "scoped (runInDatabaseTransaction name level f)"
proof (rule scopedI)
  fix s r t
  assume wf: "wf_scope s" and run: "runInDatabaseTransaction name level f s = (r, t)"
  show "within s t"
  proof (cases "registeredDatabases s name")
    case None
    with run show ?thesis
      by (auto simp add: runInDatabaseTransaction_def getDrizzleDatabaseByName_def)
  next
    case (Some base)
    let ?runner = "\<lambda>tx s2.
        case runWithContext [(CURRENT_DB_ID_KEY, VId (next_uuid s))] f
               (s2\<lparr>transactionDatabases := (transactionDatabases s2)(next_uuid s \<mapsto> tx)\<rparr>) of
          (r, s4) \<Rightarrow> (r, s4\<lparr>transactionDatabases := (transactionDatabases s4)(next_uuid s := None)\<rparr>)"
    have runner: "scoped (?runner tx)" for tx
      by (rule scoped_finally [OF scoped_runWithContext [OF assms]])
         (simp_all add: same_scope_def)
    have tr: "scoped (transaction base cfg ?runner)" for cfg
      using runner by (rule scoped_transaction)
    let ?s1 = "s\<lparr>next_uuid := Suc (next_uuid s)\<rparr>"
    have wf1: "wf_scope ?s1" using wf by (simp add: wf_scope_def)
    have "\<exists>cfg. transaction base cfg ?runner ?s1 = (r, t)"
      using run Some
      by (auto simp add: runInDatabaseTransaction_def getDrizzleDatabaseByName_def Let_def
          split: if_splits)
    then obtain cfg where "transaction base cfg ?runner ?s1 = (r, t)" ..
    with tr wf1 have "within ?s1 t" by (rule scopedD)
    then show ?thesis by (simp add: within_def)
  qed
qed

lemma scoped_runWithNewTransaction:
  assumes "scoped f"
  shows "scoped (runWithNewTransaction name level f)"
proof (rule scopedI)
  fix s r t
  assume wf: "wf_scope s" and run: "runWithNewTransaction name level f s = (r, t)"
  obtain h s1 where c: "createEventEmitterInContext s = (h, s1)"
    by (cases "createEventEmitterInContext s")
  have w1: "within s s1" using createEventEmitterInContext_within [OF wf] c by simp
  have inner: "scoped (runAndTriggerHooks h (runInDatabaseTransaction name level
      (runWithContext [(CURRENT_TRANSACTION_KEY, VBool True)] f)))"
    by (intro scoped_runAndTriggerHooks scoped_runInDatabaseTransaction scoped_runWithContext
          assms)
  have "runAndTriggerHooks h (runInDatabaseTransaction name level
      (runWithContext [(CURRENT_TRANSACTION_KEY, VBool True)] f)) s1 = (r, t)"
    using run c by (simp add: runWithNewTransaction_def)
  with inner within_wf [OF wf w1] have "within s1 t" by (rule scopedD)
  with w1 show "within s t" by (rule within_trans)
qed

lemma scoped_console_warn: "scoped f \<Longrightarrow> scoped (\<lambda>s. f (console_warn s))"
proof (rule scopedI)
  fix s r t
  assume f: "scoped f" and wf: "wf_scope s" and run: "f (console_warn s) = (r, t)"
  have "wf_scope (console_warn s)" using wf by (simp add: wf_scope_def console_warn_def)
  with f have "within (console_warn s) t" using run by (rule scopedD)
  then show "within s t" by (simp add: within_def console_warn_def)
qed

lemma scoped_fail: "scoped (\<lambda>s. (Inl e, s))"
  by (rule scoped_same) auto

lemma scoped_if: "scoped f \<Longrightarrow> scoped g \<Longrightarrow> scoped (\<lambda>s. if b then f s else g s)"
  by (simp add: scoped_def)

lemma scoped_eta: "scoped f \<Longrightarrow> scoped (\<lambda>s. f s)"
  by simp

lemma scoped_handler:
  assumes "propagationHandlers p = Some handler"
      and "scoped f" and "scoped g" and "scoped k"
  shows "scoped (handler b f g k)"
proof (cases p)
  case REQUIRES_NEW
  with assms(1) have "handler b f g k = (\<lambda>s. if b
     then runWithContext [(CURRENT_TRANSACTION_KEY, VBool False)] k (console_warn s)
     else g s)"
    by auto
  moreover have "scoped (\<lambda>s. runWithContext [(CURRENT_TRANSACTION_KEY, VBool False)] k
      (console_warn s))"
    by (rule scoped_console_warn) (rule scoped_runWithContext [OF assms(4)])
  ultimately show ?thesis using assms(3) by (simp add: scoped_if)
qed (use assms in \<open>auto intro!: scoped_if scoped_fail scoped_runWithContext [THEN scoped_eta]
      intro: scoped_eta\<close>)


lemma scoped_executeWithPropagation:
  assumes "scoped f" and "scoped g" and "scoped k"
  shows "scoped (executeWithPropagation p f g k)"
proof (rule scopedI)
  fix s r t
  assume wf: "wf_scope s" and run: "executeWithPropagation p f g k s = (r, t)"
  show "within s t"
  proof (cases "propagationHandlers p :: unit handler option")
    case None
    then have "\<exists>x. p = Unrecognized x" by (cases p) auto
    with run show ?thesis by (auto simp add: executeWithPropagation_def)
  next
    case (Some h0)
    then obtain handler :: "'a handler" where h: "propagationHandlers p = Some handler"
      by (cases p) auto
    with run obtain b where "handler b f g k s = (r, t)"
      by (auto simp add: executeWithPropagation_def Let_def)
    with scoped_handler [OF h assms] wf show ?thesis by (rule scopedD)
  qed
qed

lemma scoped_wrapInTransaction:
  assumes "scoped f"
  shows "scoped (wrapInTransaction f options)"
proof (rule scopedI)
  fix s r t
  assume wf: "wf_scope s" and run: "wrapInTransaction f options s = (r, t)"
  show "within s t"
  proof (cases "initialized s")
    case False
    with run show ?thesis by (simp add: wrapInTransaction_def)
  next
    case True
    define go where "go = executeWithPropagation
        (case propagation options of None \<Rightarrow> REQUIRED | Some q \<Rightarrow> q) f
        (runWithNewTransaction
           (case databaseName options of None \<Rightarrow> ''default'' | Some n \<Rightarrow> n)
           (isolationLevel options) f)
        (runWithNewHook f)"
    have go: "scoped go"
      unfolding go_def
      by (rule scoped_executeWithPropagation [OF assms
            scoped_runWithNewTransaction [OF assms] scoped_runWithNewHook [OF assms]])
    show ?thesis
    proof (cases "hasActiveContext s")
      case active: True
      with run True have "go s = (r, t)"
        by (simp add: wrapInTransaction_def Let_def go_def)
      with go wf show ?thesis by (rule scopedD)
    next
      case False
      with run True have "runWithContext [] go s = (r, t)"
        by (simp add: wrapInTransaction_def Let_def go_def)
      with scoped_runWithContext [OF go] wf show ?thesis by (rule scopedD)
    qed
  qed
qed

lemma scoped_exec: "scoped (exec c)" and scoped_execs: "scoped (execs cs)"
proof (induction c and cs rule: exec_execs.induct)
  case (5 key "value")
  show ?case
    by (rule scopedI) (auto simp add: setContextValue_within)
next
  case (10)
  show ?case by (rule scoped_same) auto
qed (simp_all add: scoped_proxy_insert scoped_runOnTransactionCommit
      scoped_runOnTransactionRollback scoped_runOnTransactionComplete scoped_fail
      scoped_wrapInTransaction scoped_swallow scoped_runWithContext scoped_andThen)

text \<open>
  C9. Let a nested scope be entered around an operation by \<open>runWithContext\<close>, with any
  entry bindings, from a state whose current store (if any) exists. Whatever the operation
  does inside (writes with \<open>setContextValue\<close>, wrapped operations of any policy, further
  nested scopes) and whether it returns or throws, afterwards the store that was current
  before is current again, every store that existed before (the parent's among them) has
  the content it had, and so every key reads as it did before the call.
\<close>

theorem nested_scope_is_sealed:
  assumes "wf_scope s"
  shows "asyncLocalStorage (snd (runWithContext ctx (execs body) s)) = asyncLocalStorage s \<and>
         (\<forall>a<next_store s. stores (snd (runWithContext ctx (execs body) s)) a = stores s a) \<and>
         (\<forall>key. getContextValue key (snd (runWithContext ctx (execs body) s)) =
                getContextValue key s)"
proof -
  obtain r t where run: "runWithContext ctx (execs body) s = (r, t)"
    by (cases "runWithContext ctx (execs body) s")
  from runWithContext_sealed [OF scoped_execs assms run]
  have "asyncLocalStorage t = asyncLocalStorage s" and "\<forall>a<next_store s. stores t a = stores s a"
    by simp_all
  moreover from this assms have "getContextValue key t = getContextValue key s" for key
    by (auto simp add: getContextValue_def wf_scope_def split: option.splits)
  ultimately show ?thesis using run by simp
qed

text \<open>Inside a scope that binds the transaction flag, a nested scope is entered with a
  binding for \<^verbatim>\<open>user\<close>; the operation overwrites the transaction flag, runs a wrapped
  operation (which installs a hook object) and throws. Afterwards the parent scope is
  current, its store holds the transaction flag as before and nothing else.\<close>

theorem nested_scope_is_sealed_witness:
  "wf_scope in_tx_state \<and>
   fst (runWithContext [(''user'', VId 7)]
          (execs [SetContextValue CURRENT_TRANSACTION_KEY (VBool False),
                  Call (with_policy SUPPORTS) [OnCommit (Listener 1 None)],
                  Throw (UserError 3)]) in_tx_state) = Inl (UserError 3) \<and>
   asyncLocalStorage (snd (runWithContext [(''user'', VId 7)]
          (execs [SetContextValue CURRENT_TRANSACTION_KEY (VBool False),
                  Call (with_policy SUPPORTS) [OnCommit (Listener 1 None)],
                  Throw (UserError 3)]) in_tx_state)) = Some 0 \<and>
   stores (snd (runWithContext [(''user'', VId 7)]
          (execs [SetContextValue CURRENT_TRANSACTION_KEY (VBool False),
                  Call (with_policy SUPPORTS) [OnCommit (Listener 1 None)],
                  Throw (UserError 3)]) in_tx_state)) 0 =
     [CURRENT_TRANSACTION_KEY \<mapsto> VBool True] \<and>
   trace (snd (runWithContext [(''user'', VId 7)]
          (execs [SetContextValue CURRENT_TRANSACTION_KEY (VBool False),
                  Call (with_policy SUPPORTS) [OnCommit (Listener 1 None)],
                  Throw (UserError 3)]) in_tx_state)) = [(Commit, 1, None)]"
proof -
  have wf: "wf_scope in_tx_state"
    by (simp add: wf_scope_def in_tx_state_def started_def)
  show ?thesis
    using wf nested_scope_is_sealed [OF wf, of "[(''user'', VId 7)]"
      "[SetContextValue CURRENT_TRANSACTION_KEY (VBool False),
        Call (with_policy SUPPORTS) [OnCommit (Listener 1 None)],
        Throw (UserError 3)]"]
    by (simp add: in_tx_state_def started_def run_defs)
qed


subsection \<open>What firing the hooks can change\<close>

lemma hooks_only_refl [simp]: "hooks_only s s"
  by (simp add: hooks_only_def)

lemma hooks_only_trans: "hooks_only s t \<Longrightarrow> hooks_only t u \<Longrightarrow> hooks_only s u"
  unfolding hooks_only_def
  by (metis (no_types, lifting) state.surjective state.update_convs(8,10))

lemma hooks_only_update [simp]:
  "hooks_only s (s\<lparr>emitters := e, trace := tr\<rparr>)" "hooks_only s (s\<lparr>emitters := e\<rparr>)"
  by (simp_all add: hooks_only_def)

lemma emit_loop_hooks_only: "emit_loop ev arg h ls s = (r, t) \<Longrightarrow> hooks_only s t"
proof (induction ls arbitrary: s)
  case Nil
  then show ?case by auto
next
  case (Cons l ls)
  let ?s1 = "s\<lparr>emitters := (emitters s)(h := (emitters s h)(ev := remove1 l (emitters s h ev))),
                 trace := trace s @ [(ev, tag l, arg)]\<rparr>"
  have step: "hooks_only s ?s1" by simp
  show ?case
  proof (cases "throws l")
    case None
    with Cons.prems have "emit_loop ev arg h ls ?s1 = (r, t)" by (simp add: Let_def)
    from step Cons.IH [OF this] show ?thesis by (rule hooks_only_trans)
  next
    case (Some e)
    with Cons.prems have "t = ?s1" by (simp add: Let_def)
    with step show ?thesis by simp
  qed
qed

lemma emit_hooks_only: "emit ev arg h s = (r, t) \<Longrightarrow> hooks_only s t"
  by (simp add: emit_def emit_loop_hooks_only)

lemma triggerRollback_hooks_only:
  assumes "triggerRollback h err s = (r, t)"
  shows "hooks_only s t \<and> (\<exists>e. r = Inl e)"
proof -
  obtain r1 s1 where e1: "emit Rollback (Some err) h s = (r1, s1)"
    by (cases "emit Rollback (Some err) h s")
  obtain r2 s2 where e2: "emit End (Some err) h s1 = (r2, s2)"
    by (cases "emit End (Some err) h s1")
  have h1: "hooks_only s s1" using e1 by (rule emit_hooks_only)
  have h2: "hooks_only s1 s2" using e2 by (rule emit_hooks_only)
  have h3: "hooks_only s2 (removeAllListeners h s2)" by (simp add: removeAllListeners_def)
  show ?thesis
    using assms e1 e2 h1 hooks_only_trans [OF h1 h2]
      hooks_only_trans [OF hooks_only_trans [OF h1 h2] h3]
    by (auto simp add: triggerRollback_def split: sum.splits)
qed

lemma runAndTriggerHooks_hooks_only:
  assumes "runAndTriggerHooks h f s = (r, t)"
  shows "hooks_only (snd (f s)) t"
proof -
  obtain r0 s0 where f: "f s = (r0, s0)" by (cases "f s")
  obtain r1 s1 where e1: "emit Commit None h s0 = (r1, s1)"
    by (cases "emit Commit None h s0")
  obtain r2 s2 where e2: "emit End None h s1 = (r2, s2)"
    by (cases "emit End None h s1")
  have h1: "hooks_only s0 s1" using e1 by (rule emit_hooks_only)
  have h2: "hooks_only s1 s2" using e2 by (rule emit_hooks_only)
  have h12: "hooks_only s0 s2" using h1 h2 by (rule hooks_only_trans)
  have h3: "hooks_only s2 (removeAllListeners h s2)" by (simp add: removeAllListeners_def)
  have "hooks_only s0 t"
    using assms f e1 e2 h1 h12 hooks_only_trans [OF h12 h3]
    by (auto simp add: runAndTriggerHooks_def split: sum.splits
        dest!: triggerRollback_hooks_only intro: hooks_only_trans)
  with f show ?thesis by simp
qed

lemma hooks_only_driver_log: "hooks_only s t \<Longrightarrow> driver_log t = driver_log s"
  by (auto simp add: hooks_only_def) (metis state.select_convs(16) state.surjective state.update_convs(8,10))


subsection \<open>\<open>REQUIRES_NEW\<close> inside a transaction\<close>

text \<open>
  C1, as the specification states it, fails. The inner operation of
  \<open>requires_new_scenario\<close>, invoked under \<open>REQUIRES_NEW\<close> inside an open transaction,
  fails. In the scenario as a whole, under a \<open>REQUIRED\<close> operation on the started process,
  the outer operation succeeds; the driver has begun one transaction only, not two, and
  both rows are persistent afterwards, the row of the failed inner operation included.
\<close>

theorem requires_new_counterexample:
  "fst (wrapInTransaction (execs [Insert ''default'' 2, Throw (UserError 7)])
     (with_policy REQUIRES_NEW) open_tx_state) = Inl (UserError 7) \<and>
   fst (wrapInTransaction (execs requires_new_scenario) (with_policy REQUIRED) started) =
     Inr () \<and>
   begins (snd (wrapInTransaction (execs requires_new_scenario) (with_policy REQUIRED)
     started)) = [Begin 0 None] \<and>
   committed (snd (wrapInTransaction (execs requires_new_scenario) (with_policy REQUIRED)
     started)) 0 = [1, 2]"
  by (simp add: scenario_defs run_defs)

text \<open>
  C1, amended. For every operation of policy \<open>REQUIRES_NEW\<close>, once the library is
  initialised: invoked inside an ambient transaction, the engine logs a warning and runs
  the operation in a sub-scope that binds the transaction flag to false, under a fresh hook
  scope; the operation starts from a state that is not in a transaction and to which no
  driver call has been added, and the driver calls of the whole invocation are those of
  the operation itself (the engine begins, commits and rolls back nothing). Invoked
  outside a transaction, the operation is run by \<open>runWithNewTransaction\<close>, in a fresh
  top-level scope when there is no scope yet.
\<close>

theorem requires_new_without_second_transaction:
  assumes "initialized s" and "propagation options = Some REQUIRES_NEW"
  shows "(inTransaction s \<longrightarrow>
            wrapInTransaction fn options s =
              runWithContext [(CURRENT_TRANSACTION_KEY, VBool False)] (runWithNewHook fn)
                (console_warn s) \<and>
            (\<exists>t. driver_log t = driver_log s \<and> \<not> inTransaction t \<and>
                 driver_log (snd (wrapInTransaction fn options s)) = driver_log (snd (fn t)))) \<and>
         (\<not> inTransaction s \<longrightarrow>
            wrapInTransaction fn options s =
              (if hasActiveContext s
               then runWithNewTransaction
                      (case databaseName options of None \<Rightarrow> ''default'' | Some n \<Rightarrow> n)
                      (isolationLevel options) fn s
               else runWithContext []
                      (runWithNewTransaction
                         (case databaseName options of None \<Rightarrow> ''default'' | Some n \<Rightarrow> n)
                         (isolationLevel options) fn) s))"
proof (intro conjI impI)
  assume tx: "inTransaction s"
  then obtain a where cur: "asyncLocalStorage s = Some a"
    by (auto simp add: inTransaction_def getContextValue_def split: option.splits)
  show eq: "wrapInTransaction fn options s =
      runWithContext [(CURRENT_TRANSACTION_KEY, VBool False)] (runWithNewHook fn) (console_warn s)"
    using assms tx cur
    by (simp add: wrapInTransaction_def executeWithPropagation_def inTransaction_def
          hasActiveContext_def Let_def)
  let ?s1 = "(console_warn s)\<lparr>stores := (stores s)(next_store s :=
                 (stores s a)(CURRENT_TRANSACTION_KEY \<mapsto> VBool False)),
               next_store := Suc (next_store s), asyncLocalStorage := Some (next_store s)\<rparr>"
  let ?t = "snd (createEventEmitterInContext ?s1)"
  have "driver_log ?t = driver_log s"
    by (simp add: createEventEmitterInContext_def setContextValue_def console_warn_def Let_def)
  moreover have "\<not> inTransaction ?t"
    by (simp add: createEventEmitterInContext_def setContextValue_def console_warn_def Let_def
          inTransaction_def getContextValue_def key_defs)
  moreover have "driver_log (snd (wrapInTransaction fn options s)) = driver_log (snd (fn ?t))"
  proof -
    obtain r u where run: "runAndTriggerHooks (fst (createEventEmitterInContext ?s1)) fn ?t = (r, u)"
      by (cases "runAndTriggerHooks (fst (createEventEmitterInContext ?s1)) fn ?t")
    have "driver_log u = driver_log (snd (fn ?t))"
      using runAndTriggerHooks_hooks_only [OF run] by (rule hooks_only_driver_log)
    moreover have "snd (wrapInTransaction fn options s) = u\<lparr>asyncLocalStorage := Some a\<rparr>"
      using run cur
      by (simp add: eq runWithContext_def als_run_def runWithNewHook_def console_warn_def
            Let_def split_beta)
    ultimately show ?thesis by simp
  qed
  ultimately show "\<exists>t. driver_log t = driver_log s \<and> \<not> inTransaction t \<and>
      driver_log (snd (wrapInTransaction fn options s)) = driver_log (snd (fn t))"
    by blast
next
  assume "\<not> inTransaction s"
  then show "wrapInTransaction fn options s =
      (if hasActiveContext s
       then runWithNewTransaction
              (case databaseName options of None \<Rightarrow> ''default'' | Some n \<Rightarrow> n)
              (isolationLevel options) fn s
       else runWithContext []
              (runWithNewTransaction
                 (case databaseName options of None \<Rightarrow> ''default'' | Some n \<Rightarrow> n)
                 (isolationLevel options) fn) s)"
    using assms
    by (auto simp add: wrapInTransaction_def executeWithPropagation_def inTransaction_def
          hasActiveContext_def getContextValue_def Let_def runWithContext_def als_run_def
        split: option.splits)
qed

text \<open>Inside the open transaction an operation that only registers a commit listener:
  one warning, the listener fires when the operation returns, and the driver log is the
  one of the ambient transaction. On the started process the same operation begins and
  commits a transaction of its own.\<close>

theorem requires_new_without_second_transaction_witness:
  "initialized open_tx_state \<and> inTransaction open_tx_state \<and>
   fst (wrapInTransaction (execs [OnCommit (Listener 1 None)]) (with_policy REQUIRES_NEW)
     open_tx_state) = Inr () \<and>
   driver_log (snd (wrapInTransaction (execs [OnCommit (Listener 1 None)])
     (with_policy REQUIRES_NEW) open_tx_state)) = [Begin 0 None] \<and>
   trace (snd (wrapInTransaction (execs [OnCommit (Listener 1 None)])
     (with_policy REQUIRES_NEW) open_tx_state)) = [(Commit, 1, None)] \<and>
   warnings (snd (wrapInTransaction (execs [OnCommit (Listener 1 None)])
     (with_policy REQUIRES_NEW) open_tx_state)) = 1 \<and>
   initialized started \<and> \<not> inTransaction started \<and>
   driver_log (snd (wrapInTransaction (execs [OnCommit (Listener 1 None)])
     (with_policy REQUIRES_NEW) started)) = [Begin 0 None, CommitTx 0]"
  using requires_new_without_second_transaction [of open_tx_state "with_policy REQUIRES_NEW"
          "execs [OnCommit (Listener 1 None)]"]
        requires_new_without_second_transaction [of started "with_policy REQUIRES_NEW"
          "execs [OnCommit (Listener 1 None)]"]
  by (simp add: scenario_defs run_defs)

subsection \<open>\<open>NESTED\<close> and \<open>REQUIRES_NEW\<close>\<close>





subsection \<open>The resolver in a suspended scope\<close>

text \<open>
  C2 on the code. In the scope that the \<open>NOT_SUPPORTED\<close> handler enters from inside a
  transaction the transaction flag is false, and the resolver returns the handle of the
  suspended transaction and reports \<open>isTransacting\<close>. In \<open>suspended_scenario\<close> under a
  \<open>REQUIRED\<close> operation, the row of the inner \<open>NOT_SUPPORTED\<close> operation is written
  through the transaction handle and is lost when the outer operation fails.
\<close>

theorem suspended_scope_resolves_transaction:
  "getCurrentDatabaseInfo ''default'' suspended_state =
     Inr \<lparr>database = TxHandle (Transaction 0 0), isTransacting = True, baseDatabase = 0\<rparr> \<and>
   \<not> inTransaction suspended_state \<and>
   driver_log (snd (wrapInTransaction (execs suspended_scenario) (with_policy REQUIRED)
     started)) =
     [Begin 0 None, Exec (TxHandle (Transaction 0 0)) 1,
      Exec (TxHandle (Transaction 0 0)) 2, RollbackTx 0] \<and>
   committed (snd (wrapInTransaction (execs suspended_scenario) (with_policy REQUIRED)
     started)) 0 = []"
  by (simp add: scenario_defs run_defs)

subsection \<open>A listener that throws\<close>

text \<open>
  C3 on the code. When the first commit listener of a successful operation throws, the
  wrapped call fails with the error of the listener although the transaction is
  committed and row \<open>1\<close> is persistent; the second commit listener is never called, and
  the rollback listener is called. When the first rollback listener of a failed
  operation throws, the wrapped call fails with the error of the listener in place of
  the error of the operation, and neither the second rollback listener nor the end
  listener is called; the second rollback listener stays registered.
\<close>

theorem listener_error_escapes:
  "fst (wrapInTransaction (execs throwing_commit_listener) (with_policy REQUIRED) started) =
     Inl (UserError 9) \<and>
   committed (snd (wrapInTransaction (execs throwing_commit_listener) (with_policy REQUIRED)
     started)) 0 = [1] \<and>
   trace (snd (wrapInTransaction (execs throwing_commit_listener) (with_policy REQUIRED)
     started)) =
     [(Commit, 1, None), (Rollback, 3, Some (UserError 9)), (End, 4, Some (UserError 9))] \<and>
   fst (wrapInTransaction (execs throwing_rollback_listener) (with_policy REQUIRED) started) =
     Inl (UserError 9) \<and>
   trace (snd (wrapInTransaction (execs throwing_rollback_listener) (with_policy REQUIRED)
     started)) = [(Rollback, 1, Some (UserError 5))] \<and>
   emitters (snd (wrapInTransaction (execs throwing_rollback_listener) (with_policy REQUIRED)
     started)) 0 Rollback = [Listener 2 None]"
  by (simp add: scenario_defs run_defs)


subsection \<open>\<open>REQUIRED\<close> inside \<open>REQUIRED\<close>\<close>

lemma joined_step_ctx: "joined_ctx h s \<Longrightarrow> joined_step h reg s t \<Longrightarrow> joined_ctx h t"
  by (auto simp add: joined_ctx_def joined_step_def same_scope_def inTransaction_def
        getContextValue_def split: option.splits)

lemma joined_step_trans:
  "joined_step h reg1 s t \<Longrightarrow> joined_step h reg2 t u \<Longrightarrow>
   joined_step h (\<lambda>ev. reg1 ev @ reg2 ev) s u"
  by (simp add: joined_step_def same_scope_def)

lemma wrapInTransaction_joins:
  assumes "initialized s" and "inTransaction s"
      and "propagation options = None \<or> propagation options = Some REQUIRED"
  shows "wrapInTransaction fn options s = fn s"
  using assms
  by (auto simp add: wrapInTransaction_def executeWithPropagation_def inTransaction_def
        hasActiveContext_def getContextValue_def Let_def
      split: option.splits)

lemma joined_hook: "joined_ctx h s \<Longrightarrow> getTransactionalContextHook s = Inr h"
  by (auto simp add: joined_ctx_def getTransactionalContextHook_def hasActiveContext_def
        getContextValue_def split: option.splits)

lemma joined_insert:
  assumes "proxy_insert name row s = (Inr u, t)"
  shows "joined_step h (\<lambda>_. []) s t"
  using assms
  by (auto simp add: proxy_insert_def execute_def joined_step_def same_scope_def begins_def
      split: sum.splits handle.splits)

lemma joined_once:
  "joined_step h (\<lambda>ev. if ev = ev0 then [l] else []) s (once ev0 l h s)"
  by (simp add: joined_step_def same_scope_def once_def begins_def)

lemma joined_exec:
  "joins c \<Longrightarrow> joined_ctx h s \<Longrightarrow> exec c s = (Inr u, t) \<Longrightarrow>
     joined_step h (\<lambda>ev. registered ev c) s t"
  and joined_execs:
  "joins_all cs \<Longrightarrow> joined_ctx h s \<Longrightarrow> execs cs s = (Inr u, t) \<Longrightarrow>
     joined_step h (\<lambda>ev. registered_all ev cs) s t"
proof (induction c and cs arbitrary: s t u and s t u rule: exec_execs.induct)
  case (1 name row)
  then show ?case by (simp add: joined_insert)
next
  case (2 l)
  then show ?case
    using joined_once [of h Commit l s]
    by (auto simp add: runOnTransactionCommit_def joined_hook)
next
  case (3 l)
  then show ?case
    using joined_once [of h Rollback l s]
    by (auto simp add: runOnTransactionRollback_def joined_hook)
next
  case (4 l)
  then show ?case
    using joined_once [of h End l s]
    by (auto simp add: runOnTransactionComplete_def joined_hook)
next
  case (7 options body)
  from "7.prems" have "execs body s = (Inr u, t)"
    by (simp add: wrapInTransaction_joins joined_ctx_def)
  with "7.IH" "7.prems" show ?case by simp
next
  case 10
  then show ?case by (simp add: joined_step_def)
next
  case (11 c cs)
  obtain r1 s1 where c: "exec c s = (r1, s1)" by (cases "exec c s")
  with "11.prems"(3) obtain u1 where r1: "r1 = Inr u1" and rest: "execs cs s1 = (Inr u, t)"
    by (cases r1) (auto simp add: andThen_def)
  from "11.prems" have jc: "joins c" and jcs: "joins_all cs" by simp_all
  have st1: "joined_step h (\<lambda>ev. registered ev c) s s1"
    using "11.IH"(1) [OF jc "11.prems"(2)] c r1 by simp
  have "joined_ctx h s1" using "11.prems"(2) st1 by (rule joined_step_ctx)
  from "11.IH"(2) [OF jcs this rest] have "joined_step h (\<lambda>ev. registered_all ev cs) s1 t" .
  with st1 show ?case using joined_step_trans by fastforce
qed simp_all









lemma key_distinct [simp]:
  "CURRENT_TRANSACTION_KEY \<noteq> HOOK_CONTEXT_KEY" "HOOK_CONTEXT_KEY \<noteq> CURRENT_TRANSACTION_KEY"
  "CURRENT_DB_ID_KEY \<noteq> HOOK_CONTEXT_KEY" "HOOK_CONTEXT_KEY \<noteq> CURRENT_DB_ID_KEY"
  "CURRENT_TRANSACTION_KEY \<noteq> CURRENT_DB_ID_KEY" "CURRENT_DB_ID_KEY \<noteq> CURRENT_TRANSACTION_KEY"
  by (simp_all add: key_defs)

lemma begins_append_begin [simp]:
  "filter is_begin (xs @ [Begin db config]) = filter is_begin xs @ [Begin db config]"
  by simp






end
